theory Spec2Isabelle
  imports Main "HOL-Library.Word"
begin

section \<open>The session of one client (session.go)\<close>

text \<open>
  The three queues of a session are Go \<open>container/list\<close> lists; they are modelled as
  HOL lists with the front of the Go list at the head. The mutexes are not modelled: every
  operation below is the sequential effect of one call, taken while its lock is held.
  Writes to the logger have no effect on the session and are left out. Calls that leave the
  session (the two hooks and \<open>deliverMsg\<close>) are recorded, in call order, in the field
  \<open>effects\<close>.
\<close>

subsection \<open>Packets\<close>

text \<open>
  Modelled from the spec: the type \<open>packets.PacketID\<close> is declared outside the source
  file. The spec calls a packet identifier a 16-bit value.
\<close>

type_synonym PacketID = "16 word"

text \<open>
  Modelled from the spec: the constant \<open>packets.MAX_PACKET_ID\<close> is declared outside the
  source file. The spec gives the identifier space as 1 to 65535.
\<close>

definition MAX_PACKET_ID :: PacketID where
  "MAX_PACKET_ID = 65535"

text \<open>
  Modelled from the spec: the constant \<open>packets.MIN_PACKET_ID\<close> is declared outside the
  source file. The spec gives the identifier space as 1 to 65535.
\<close>

definition MIN_PACKET_ID :: PacketID where
  "MIN_PACKET_ID = 1"

text \<open>
  Modelled from the spec: the constants \<open>packets.QOS_0\<close>, \<open>QOS_1\<close> and \<open>QOS_2\<close> are
  declared outside the source file. The spec names three levels of service: at most once,
  at least once and exactly once.
\<close>

datatype QoS = QOS_0 | QOS_1 | QOS_2

text \<open>
  Modelled from the spec: the type \<open>packets.Publish\<close> is declared outside the source
  file, which reads its fields \<open>Qos\<close> and \<open>PacketID\<close>. The spec lists the level of
  service, the topic, the body, the retain flag and the identifier. A message is a value
  here: a \<open>nil\<close> pointer is not a message.
\<close>

record Publish =
  Dup :: bool
  Qos :: QoS
  Retain :: bool
  TopicName :: string
  PacketID :: PacketID
  Payload :: string

text \<open>
  Modelled from the spec: the interface \<open>packets.Packet\<close> and its implementations are
  declared outside the source file. The argument of \<open>unsetInflight\<close> is any packet; the
  comment of the function names the three kinds below, each carrying an identifier. The
  type switch has a case for the first two only, and \<open>Pubcomp\<close> stands for every kind
  that takes none of them.
\<close>

datatype Packet = Puback PacketID | Pubrec PacketID | Pubcomp PacketID

subsection \<open>Queue elements and the session\<close>

text \<open>The entry time is the value of \<open>time.Now()\<close>, which each operation takes as an argument.\<close>

record inflightElem =
  at :: nat
  pid :: PacketID
  packet :: Publish

record awaitRelElem =
  rel_at :: nat
  rel_pid :: PacketID

datatype event = OnMsgDropped Publish | OnAcked Publish | DeliverMsg Publish

text \<open>
  Modelled from the spec: the type \<open>Config\<close> is not part of the source file. The spec
  gives the three bounds of a session as sizes, 0 meaning unbounded, so they are natural
  numbers here.
\<close>

record Config =
  MaxInflight :: nat
  MaxAwaitRel :: nat
  MaxMsgQueue :: nat

text \<open>
  The record holds the fields of \<open>session\<close>, whether the server has the hooks
  \<open>OnMsgDropped\<close> and \<open>OnAcked\<close> registered, and the calls made to the outside. The
  counters are \<open>int64\<close> in the source; they are modelled as integers, since they move
  by one per event and cannot reach the end of their range.
\<close>

record client =
  inflight :: "inflightElem list"
  inflightLen :: int
  awaitRel :: "awaitRelElem list"
  awaitRelLen :: int
  msgQueue :: "Publish list"
  msgQueueLen :: int
  subscriptionsCount :: int
  msgDroppedTotal :: int
  msgDeliveredTotal :: int
  unackpublish :: "PacketID \<rightharpoonup> bool"
  lockedPid :: "PacketID \<rightharpoonup> bool"
  freePid :: PacketID
  config :: Config
  hookOnMsgDropped :: bool
  hookOnAcked :: bool
  effects :: "event list"

subsection \<open>Calls that leave the file\<close>

text \<open>
  Modelled from the spec: \<open>addMsgDroppedTotal\<close> is a method of the client that is not part
  of the source file. The spec says that reporting a message as dropped increments the
  dropped-message counter of the session.
\<close>

definition addMsgDroppedTotal :: "int \<Rightarrow> client \<Rightarrow> client" where
  "addMsgDroppedTotal delta c = c\<lparr>msgDroppedTotal := msgDroppedTotal c + delta\<rparr>"

text \<open>
  Modelled from the spec: \<open>deliverMsg\<close> is a method of the client that is not part of the
  source file. The spec says that it triggers the transmission of the message, performed by
  the transport; the call is recorded.
\<close>

definition deliverMsg :: "Publish \<Rightarrow> client \<Rightarrow> client" where
  "deliverMsg publish c = c\<lparr>effects := effects c @ [DeliverMsg publish]\<rparr>"

text \<open>
  The two hooks of the server are called only when they are registered. The conversion
  \<open>messageFromPublish\<close> of their argument is outside the source file; the call is
  recorded with the message itself.
\<close>

definition callOnMsgDropped :: "Publish \<Rightarrow> client \<Rightarrow> client" where
  "callOnMsgDropped m c =
     (if hookOnMsgDropped c then c\<lparr>effects := effects c @ [OnMsgDropped m]\<rparr> else c)"

definition callOnAcked :: "Publish \<Rightarrow> client \<Rightarrow> client" where
  "callOnAcked m c =
     (if hookOnAcked c then c\<lparr>effects := effects c @ [OnAcked m]\<rparr> else c)"

subsection \<open>The identifier table\<close>

text \<open>Reading a Go map at a key it does not hold gives \<open>false\<close>.\<close>

definition is_locked :: "(PacketID \<rightharpoonup> bool) \<Rightarrow> PacketID \<Rightarrow> bool" where
  "is_locked m p = (case m p of None \<Rightarrow> False | Some b \<Rightarrow> b)"

definition freePacketID :: "PacketID \<Rightarrow> client \<Rightarrow> client" where
  "freePacketID p c = c\<lparr>lockedPid := (lockedPid c)(p \<mapsto> False)\<rparr>"

definition setPacketID :: "PacketID \<Rightarrow> client \<Rightarrow> client" where
  "setPacketID p c = c\<lparr>lockedPid := (lockedPid c)(p \<mapsto> True)\<rparr>"

text \<open>
  One step of the cursor: \<open>s.freePid++\<close> on a 16-bit value, followed by the comparison
  with \<open>MAX_PACKET_ID\<close>.
\<close>

definition next_pid :: "PacketID \<Rightarrow> PacketID" where
  "next_pid p = (let q = p + 1 in if q > MAX_PACKET_ID then MIN_PACKET_ID else q)"

text \<open>
  The scan of \<open>getPacketID\<close> runs for as long as the identifier under the cursor is
  locked; it does not return when every identifier it visits is locked.
\<close>

partial_function (option) getPacketID_loop :: "(PacketID \<rightharpoonup> bool) \<Rightarrow> PacketID \<Rightarrow> PacketID option" where
  "getPacketID_loop locked p =
     (if is_locked locked p then getPacketID_loop locked (next_pid p) else Some p)"

definition getPacketID :: "client \<Rightarrow> (PacketID \<times> client) option" where
  "getPacketID c =
     (case getPacketID_loop (lockedPid c) (freePid c) of
        None \<Rightarrow> None
      | Some p \<Rightarrow> Some (p, c\<lparr>freePid := next_pid p\<rparr>))"

subsection \<open>The await-release queue\<close>

text \<open>
  In \<open>setAwaitRel\<close> the front is removed only when the queue holds at least
  \<open>MaxAwaitRel > 0\<close> entries, so the list is not empty there.
\<close>

definition setAwaitRel :: "nat \<Rightarrow> PacketID \<Rightarrow> client \<Rightarrow> client" where
  "setAwaitRel now p c =
     (let elem = \<lparr>rel_at = now, rel_pid = p\<rparr>;
          c1 = (if length (awaitRel c) \<ge> MaxAwaitRel (config c) \<and> MaxAwaitRel (config c) \<noteq> 0
                then c\<lparr>awaitRel := tl (awaitRel c)\<rparr>
                else c)
      in c1\<lparr>awaitRel := awaitRel c1 @ [elem], awaitRelLen := awaitRelLen c1 + 1\<rparr>)"

text \<open>
  The scan of \<open>unsetAwaitRel\<close>: \<open>seen\<close> holds the entries already passed; the result is
  the queue without the first entry whose identifier is \<open>p\<close>.
\<close>

fun unsetAwaitRel_loop :: "PacketID \<Rightarrow> awaitRelElem list \<Rightarrow> awaitRelElem list \<Rightarrow> awaitRelElem list option" where
  "unsetAwaitRel_loop p seen [] = None"
| "unsetAwaitRel_loop p seen (el # rest) =
     (if rel_pid el = p then Some (seen @ rest)
      else unsetAwaitRel_loop p (seen @ [el]) rest)"

definition unsetAwaitRel :: "PacketID \<Rightarrow> client \<Rightarrow> client" where
  "unsetAwaitRel p c =
     (case unsetAwaitRel_loop p [] (awaitRel c) of
        None \<Rightarrow> c
      | Some q \<Rightarrow> freePacketID p (c\<lparr>awaitRel := q, awaitRelLen := awaitRelLen c - 1\<rparr>))"

subsection \<open>The backlog queue\<close>

text \<open>
  \<open>msgEnQueue\<close> on a full queue: the counter is incremented first; \<open>removeMsg\<close> is the
  first entry with \<open>QOS_0\<close>, if any. In case 1 the source logs the entry and goes on to
  \<open>PushBack\<close>; in case 2 it returns; in case 3 it removes the front. The deferred call of
  the hook runs last, with \<open>removeMsg\<close> if it is set and with \<open>publish\<close> otherwise. In
  case 3 the queue holds at least \<open>MaxMsgQueue > 0\<close> entries, so it has a front.
\<close>

definition msgEnQueue :: "Publish \<Rightarrow> client \<Rightarrow> client" where
  "msgEnQueue publish c =
     (if length (msgQueue c) \<ge> MaxMsgQueue (config c) \<and> MaxMsgQueue (config c) \<noteq> 0 then
        (let c1 = addMsgDroppedTotal 1 c in
         case find (\<lambda>pub. Qos pub = QOS_0) (msgQueue c1) of
           Some removeMsg \<Rightarrow>
             callOnMsgDropped removeMsg (c1\<lparr>msgQueue := msgQueue c1 @ [publish]\<rparr>)
         | None \<Rightarrow>
             if Qos publish = QOS_0 then callOnMsgDropped publish c1
             else (case msgQueue c1 of
                     [] \<Rightarrow> c1
                   | removeMsg # rest \<Rightarrow>
                       callOnMsgDropped removeMsg (c1\<lparr>msgQueue := rest @ [publish]\<rparr>)))
      else c\<lparr>msgQueueLen := msgQueueLen c + 1, msgQueue := msgQueue c @ [publish]\<rparr>)"

definition msgDequeue :: "client \<Rightarrow> Publish option \<times> client" where
  "msgDequeue c =
     (case msgQueue c of
        [] \<Rightarrow> (None, c)
      | queueElem # rest \<Rightarrow>
          (Some queueElem, c\<lparr>msgQueue := rest, msgQueueLen := msgQueueLen c - 1\<rparr>))"

subsection \<open>The in-flight queue\<close>

definition setInflight :: "nat \<Rightarrow> Publish \<Rightarrow> client \<Rightarrow> bool \<times> client" where
  "setInflight now publish c =
     (let elem = \<lparr>at = now, pid = PacketID publish, packet = publish\<rparr>
      in if length (inflight c) \<ge> MaxInflight (config c) \<and> MaxInflight (config c) \<noteq> 0
         then (False, msgEnQueue publish c)
         else (True, c\<lparr>inflightLen := inflightLen c + 1, inflight := inflight c @ [elem]\<rparr>))"

text \<open>
  The body of the loop of \<open>unsetInflight\<close> for one element. The locals \<open>freeID\<close> and
  \<open>pid\<close> start as \<open>false\<close> and 0 and keep their values from one element to the next.
  The result is the new value of the locals, and whether the element is the one to remove;
  \<open>continue\<close> gives \<open>False\<close> with the locals unchanged.
\<close>

fun unsetInflight_body :: "Packet \<Rightarrow> bool \<times> PacketID \<Rightarrow> inflightElem \<Rightarrow> (bool \<times> PacketID) \<times> bool" where
  "unsetInflight_body (Puback p) (freeID, pid0) el =
     (if Qos (packet el) \<noteq> QOS_1 then ((freeID, pid0), False)
      else ((True, p), pid el = p))"
| "unsetInflight_body (Pubrec p) (freeID, pid0) el =
     (if Qos (packet el) \<noteq> QOS_2 then ((freeID, pid0), False)
      else ((freeID, p), pid el = p))"
| "unsetInflight_body (Pubcomp p) (freeID, pid0) el =
     ((freeID, pid0), pid el = pid0)"

fun unsetInflight_loop :: "Packet \<Rightarrow> bool \<times> PacketID \<Rightarrow> inflightElem list \<Rightarrow> inflightElem list
    \<Rightarrow> (inflightElem list \<times> inflightElem \<times> bool \<times> PacketID) option" where
  "unsetInflight_loop pk locals seen [] = None"
| "unsetInflight_loop pk locals seen (el # rest) =
     (case unsetInflight_body pk locals el of
        (locals', True) \<Rightarrow> Some (seen @ rest, el, locals')
      | (locals', False) \<Rightarrow> unsetInflight_loop pk locals' (seen @ [el]) rest)"

definition unsetInflight :: "nat \<Rightarrow> Packet \<Rightarrow> client \<Rightarrow> client" where
  "unsetInflight now pk c =
     (case unsetInflight_loop pk (False, 0) [] (inflight c) of
        None \<Rightarrow> c
      | Some (q, e, freeID, pid0) \<Rightarrow>
          (let c1 = c\<lparr>inflight := q, inflightLen := inflightLen c - 1\<rparr>;
               c2 = (if freeID then freePacketID pid0 c1 else c1);
               c3 = callOnAcked (packet e) c2
           in case msgDequeue c3 of
                (None, c4) \<Rightarrow> c4
              | (Some publish, c4) \<Rightarrow>
                  deliverMsg publish
                    (c4\<lparr>inflight := inflight c4 @
                          [\<lparr>at = now, pid = PacketID publish, packet = publish\<rparr>]\<rparr>)))"

subsection \<open>Sequences of calls\<close>

text \<open>
  The calls of \<open>setInflight\<close> for a list of messages, each with its entry time, in
  order; the result is the list of the values returned and the session after the last call.
\<close>

fun setInflight_seq :: "(nat \<times> Publish) list \<Rightarrow> client \<Rightarrow> bool list \<times> client" where
  "setInflight_seq [] c = ([], c)"
| "setInflight_seq ((now, publish) # rest) c =
     (case setInflight now publish c of
        (enqueue, c1) \<Rightarrow>
          (case setInflight_seq rest c1 of (bs, c2) \<Rightarrow> (enqueue # bs, c2)))"

text \<open>The in-flight record that \<open>setInflight\<close> builds for a message and its entry time.\<close>

definition admitted_elem :: "nat \<times> Publish \<Rightarrow> inflightElem" where
  "admitted_elem m = \<lparr>at = fst m, pid = PacketID (snd m), packet = snd m\<rparr>"

text \<open>
  Any operation of the file, and the run of a list of them on a session. A run has no
  final session when a call of \<open>getPacketID\<close> in it does not return.
\<close>

datatype call =
    SetAwaitRel nat PacketID
  | UnsetAwaitRel PacketID
  | MsgEnQueue Publish
  | MsgDequeue
  | SetInflight nat Publish
  | UnsetInflight nat Packet
  | FreePacketID PacketID
  | SetPacketID PacketID
  | GetPacketID

fun do_call :: "call \<Rightarrow> client \<Rightarrow> client option" where
  "do_call (SetAwaitRel now p) c = Some (setAwaitRel now p c)"
| "do_call (UnsetAwaitRel p) c = Some (unsetAwaitRel p c)"
| "do_call (MsgEnQueue publish) c = Some (msgEnQueue publish c)"
| "do_call MsgDequeue c = Some (snd (msgDequeue c))"
| "do_call (SetInflight now publish) c = Some (snd (setInflight now publish c))"
| "do_call (UnsetInflight now pk) c = Some (unsetInflight now pk c)"
| "do_call (FreePacketID p) c = Some (freePacketID p c)"
| "do_call (SetPacketID p) c = Some (setPacketID p c)"
| "do_call GetPacketID c = map_option snd (getPacketID c)"

fun run :: "call list \<Rightarrow> client \<Rightarrow> client option" where
  "run [] c = Some c"
| "run (x # xs) c = (case do_call x c of None \<Rightarrow> None | Some c' \<Rightarrow> run xs c')"

subsection \<open>Concrete sessions\<close>

text \<open>
  A session with empty queues, counters at 0, an empty identifier table with the cursor
  at 1, both hooks registered, and the bounds given; and a message with a level of service
  and an identifier. The closed theorems below run the operations on them.
\<close>

definition example_session :: "nat \<Rightarrow> nat \<Rightarrow> nat \<Rightarrow> client" where
  "example_session mi ma mq =
     \<lparr>inflight = [], inflightLen = 0, awaitRel = [], awaitRelLen = 0,
      msgQueue = [], msgQueueLen = 0, subscriptionsCount = 0, msgDroppedTotal = 0,
      msgDeliveredTotal = 0, unackpublish = Map.empty, lockedPid = Map.empty, freePid = 1,
      config = \<lparr>MaxInflight = mi, MaxAwaitRel = ma, MaxMsgQueue = mq\<rparr>,
      hookOnMsgDropped = True, hookOnAcked = True, effects = []\<rparr>"

definition example_publish :: "QoS \<Rightarrow> PacketID \<Rightarrow> Publish" where
  "example_publish q i =
     \<lparr>Dup = False, Qos = q, Retain = False, TopicName = ''t'', PacketID = i, Payload = ''m''\<rparr>"

text \<open>
  A session with a \<open>QOS_1\<close> record (identifier 1) and a \<open>QOS_2\<close> record (identifier 2)
  in flight and an entry with identifier 3 awaiting release, each identifier marked in use.
\<close>

definition example_busy_session :: client where
  "example_busy_session =
     setPacketID 3 (setAwaitRel 3 3
       (setPacketID 2 (snd (setInflight 2 (example_publish QOS_2 2)
         (setPacketID 1 (snd (setInflight 1 (example_publish QOS_1 1)
           (example_session 0 0 0))))))))"

section \<open>Evaluating the operations\<close>

lemmas ops_defs = setAwaitRel_def unsetAwaitRel_def msgEnQueue_def msgDequeue_def
  setInflight_def unsetInflight_def freePacketID_def setPacketID_def
  addMsgDroppedTotal_def deliverMsg_def callOnMsgDropped_def callOnAcked_def Let_def

lemmas pid_defs = getPacketID_def getPacketID_loop.simps is_locked_def next_pid_def
  MAX_PACKET_ID_def MIN_PACKET_ID_def

lemmas example_defs = example_session_def example_publish_def

section \<open>The identifier allocator\<close>

text \<open>
  The scan returns the first identifier, counted in steps of the cursor, that is not
  locked, as soon as some number of steps reaches one. The proof is by induction on that
  number and does not look into \<open>next_pid\<close>.
\<close>

lemma getPacketID_loop_first_free:
  "\<not> is_locked m ((next_pid ^^ n) p) \<Longrightarrow>
   \<exists>k\<le>n. getPacketID_loop m p = Some ((next_pid ^^ k) p) \<and>
          \<not> is_locked m ((next_pid ^^ k) p) \<and>
          (\<forall>j<k. is_locked m ((next_pid ^^ j) p))"
proof (induction n arbitrary: p)
  case 0
  then have "getPacketID_loop m p = Some p"
    by (subst getPacketID_loop.simps) simp
  with 0 show ?case by simp
next
  case (Suc n)
  show ?case
  proof (cases "is_locked m p")
    case False
    then have "getPacketID_loop m p = Some p"
      by (subst getPacketID_loop.simps) simp
    with False show ?thesis by (intro exI [of _ 0]) simp
  next
    case True
    from Suc.prems have "\<not> is_locked m ((next_pid ^^ n) (next_pid p))"
      by (simp add: funpow_swap1)
    from Suc.IH [OF this] obtain k where k: "k \<le> n"
      "getPacketID_loop m (next_pid p) = Some ((next_pid ^^ k) (next_pid p))"
      "\<not> is_locked m ((next_pid ^^ k) (next_pid p))"
      "\<forall>j<k. is_locked m ((next_pid ^^ j) (next_pid p))"
      by blast
    have loop: "getPacketID_loop m p = Some ((next_pid ^^ Suc k) p)"
      using True k(2) by (subst getPacketID_loop.simps) (simp add: funpow_swap1)
    have before: "\<forall>j<Suc k. is_locked m ((next_pid ^^ j) p)"
    proof (intro allI impI)
      fix j assume "j < Suc k"
      then show "is_locked m ((next_pid ^^ j) p)"
        using True k(4) by (cases j) (simp_all add: funpow_swap1)
    qed
    show ?thesis
      using k(1) k(3) loop before
      by (intro exI [of _ "Suc k"]) (simp add: funpow_swap1)
  qed
qed

text \<open>
  Conversely, an identifier returned by the scan is one that the scan reaches and that is
  not locked; so when every identifier that the scan visits is locked, the call does not
  return.
\<close>

lemma getPacketID_loop_Some_free:
  "getPacketID_loop m p = Some y \<Longrightarrow> \<exists>k. y = (next_pid ^^ k) p \<and> \<not> is_locked m y"
proof (induct rule: getPacketID_loop.raw_induct [rotated, consumes 1])
  fix f m p y
  assume IH: "\<And>m p y. f m p = Some y \<Longrightarrow> \<exists>k. y = (next_pid ^^ k) p \<and> \<not> is_locked m y"
    and eq: "(if is_locked m p then f m (next_pid p) else Some p) = Some y"
  show "\<exists>k. y = (next_pid ^^ k) p \<and> \<not> is_locked m y"
  proof (cases "is_locked m p")
    case True
    with eq have "f m (next_pid p) = Some y" by simp
    from IH [OF this] obtain k where "y = (next_pid ^^ k) (next_pid p)" "\<not> is_locked m y"
      by blast
    then have "y = (next_pid ^^ Suc k) p \<and> \<not> is_locked m y"
      by (simp add: funpow_swap1)
    then show ?thesis by blast
  next
    case False
    with eq have "y = p" by simp
    with False have "y = (next_pid ^^ 0) p \<and> \<not> is_locked m y" by simp
    then show ?thesis by blast
  qed
qed

lemma getPacketID_all_locked:
  "\<forall>k. is_locked (lockedPid c) ((next_pid ^^ k) (freePid c)) \<Longrightarrow> getPacketID c = None"
proof (cases "getPacketID_loop (lockedPid c) (freePid c)")
  case None
  then show ?thesis by (simp add: getPacketID_def)
next
  case (Some y)
  assume all: "\<forall>k. is_locked (lockedPid c) ((next_pid ^^ k) (freePid c))"
  from getPacketID_loop_Some_free [OF Some] all show ?thesis by blast
qed

text \<open>
  C1, as the code has it: when the scan from the cursor reaches an identifier that is not
  marked in use, \<open>getPacketID\<close> returns the first such identifier, every identifier the
  scan passed before it being marked in use; the returned identifier is not marked in use
  at the moment of return, the identifier table is left as it was, and the cursor is set
  one step past the returned identifier.
\<close>

theorem getPacketID_first_free:
  assumes "\<not> is_locked (lockedPid c) ((next_pid ^^ n) (freePid c))"
  shows "\<exists>k p c'. k \<le> n \<and> p = (next_pid ^^ k) (freePid c) \<and>
           getPacketID c = Some (p, c') \<and>
           \<not> is_locked (lockedPid c) p \<and>
           (\<forall>j<k. is_locked (lockedPid c) ((next_pid ^^ j) (freePid c))) \<and>
           \<not> is_locked (lockedPid c') p \<and>
           lockedPid c' = lockedPid c \<and>
           c' = c\<lparr>freePid := next_pid p\<rparr>"
  using getPacketID_loop_first_free [OF assms]
  by (auto simp: getPacketID_def)

theorem getPacketID_first_free_witness:
  "\<not> is_locked (lockedPid (setPacketID 2 (setPacketID 1 (example_session 0 0 0))))
       ((next_pid ^^ Suc (Suc 0)) (freePid (setPacketID 2 (setPacketID 1 (example_session 0 0 0))))) \<and>
   getPacketID (setPacketID 2 (setPacketID 1 (example_session 0 0 0))) =
     Some (3, (setPacketID 2 (setPacketID 1 (example_session 0 0 0)))\<lparr>freePid := 4\<rparr>)"
proof -
  let ?c = "setPacketID 2 (setPacketID 1 (example_session 0 0 0))"
  have free: "\<not> is_locked (lockedPid ?c) ((next_pid ^^ Suc (Suc 0)) (freePid ?c))"
    by (simp add: setPacketID_def example_session_def is_locked_def next_pid_def
        MAX_PACKET_ID_def MIN_PACKET_ID_def)
  from getPacketID_first_free [OF free]
  obtain k p c' where k: "k \<le> Suc (Suc 0)" "p = (next_pid ^^ k) (freePid ?c)"
    "getPacketID ?c = Some (p, c')" "\<not> is_locked (lockedPid ?c) p"
    "c' = ?c\<lparr>freePid := next_pid p\<rparr>"
    by blast
  from k(1) have "k = 0 \<or> k = Suc 0 \<or> k = Suc (Suc 0)" by arith
  with k(2) k(4) have "p = 3"
    by (auto simp: setPacketID_def example_session_def is_locked_def next_pid_def
        MAX_PACKET_ID_def MIN_PACKET_ID_def)
  with k(3) k(5) have "getPacketID ?c = Some (3, ?c\<lparr>freePid := 4\<rparr>)"
    by (simp add: next_pid_def MAX_PACKET_ID_def MIN_PACKET_ID_def)
  with free show ?thesis by blast
qed

text \<open>
  The claim as written has the returned identifier marked in use when the call returns.
  On a fresh session the call returns 1 and the table still has no mark for 1.
\<close>

theorem getPacketID_marks_counterexample:
  "getPacketID (example_session 0 0 0) = Some (1, (example_session 0 0 0)\<lparr>freePid := 2\<rparr>) \<and>
   \<not> is_locked (lockedPid ((example_session 0 0 0)\<lparr>freePid := 2\<rparr>)) 1"
  by (simp add: pid_defs example_session_def)

text \<open>
  The step of the cursor. The increment is on a 16-bit value, so it takes 65535 to 0, and
  0 is not greater than \<open>MAX_PACKET_ID\<close>: the comparison never holds, the cursor is never
  set to \<open>MIN_PACKET_ID\<close> by it, and after 65535 the allocator issues 0.
\<close>

lemma next_pid_plus_one: "next_pid p = p + 1"
proof -
  have "unat (p + 1) < 2 ^ LENGTH(16)"
    by (rule unsigned_less)
  then have "\<not> p + 1 > MAX_PACKET_ID"
    by (simp add: MAX_PACKET_ID_def word_less_nat_alt)
  then show ?thesis
    by (simp add: next_pid_def Let_def)
qed

lemma getPacketID_after_MAX_PACKET_ID:
  "getPacketID ((example_session 0 0 0)\<lparr>freePid := 65535\<rparr>) =
     Some (65535, (example_session 0 0 0)\<lparr>freePid := 0\<rparr>) \<and>
   getPacketID ((example_session 0 0 0)\<lparr>freePid := 0\<rparr>) =
     Some (0, (example_session 0 0 0)\<lparr>freePid := 1\<rparr>)"
  by (simp add: pid_defs example_session_def)

section \<open>The backlog queue\<close>

text \<open>
  What \<open>msgEnQueue\<close> does in each of its four branches. In case 1 the entry found by
  the scan is passed to the hook and stays in the queue; nothing is removed and the
  message is appended.
\<close>

lemma msgEnQueue_room:
  "\<not> (MaxMsgQueue (config c) \<le> length (msgQueue c) \<and> MaxMsgQueue (config c) \<noteq> 0) \<Longrightarrow>
   msgEnQueue publish c = c\<lparr>msgQueueLen := msgQueueLen c + 1, msgQueue := msgQueue c @ [publish]\<rparr>"
  by (auto simp: msgEnQueue_def)

lemma msgEnQueue_case1:
  "MaxMsgQueue (config c) \<le> length (msgQueue c) \<Longrightarrow> MaxMsgQueue (config c) \<noteq> 0 \<Longrightarrow>
   find (\<lambda>pub. Qos pub = QOS_0) (msgQueue c) = Some removeMsg \<Longrightarrow>
   msgEnQueue publish c =
     callOnMsgDropped removeMsg
       (c\<lparr>msgDroppedTotal := msgDroppedTotal c + 1, msgQueue := msgQueue c @ [publish]\<rparr>)"
  by (simp add: msgEnQueue_def addMsgDroppedTotal_def Let_def)

lemma msgEnQueue_case2:
  "MaxMsgQueue (config c) \<le> length (msgQueue c) \<Longrightarrow> MaxMsgQueue (config c) \<noteq> 0 \<Longrightarrow>
   find (\<lambda>pub. Qos pub = QOS_0) (msgQueue c) = None \<Longrightarrow> Qos publish = QOS_0 \<Longrightarrow>
   msgEnQueue publish c =
     callOnMsgDropped publish (c\<lparr>msgDroppedTotal := msgDroppedTotal c + 1\<rparr>)"
  by (simp add: msgEnQueue_def addMsgDroppedTotal_def Let_def)

lemma msgEnQueue_case3:
  "MaxMsgQueue (config c) \<le> length (msgQueue c) \<Longrightarrow> MaxMsgQueue (config c) \<noteq> 0 \<Longrightarrow>
   find (\<lambda>pub. Qos pub = QOS_0) (msgQueue c) = None \<Longrightarrow> Qos publish \<noteq> QOS_0 \<Longrightarrow>
   msgQueue c = front # rest \<Longrightarrow>
   msgEnQueue publish c =
     callOnMsgDropped front
       (c\<lparr>msgDroppedTotal := msgDroppedTotal c + 1, msgQueue := rest @ [publish]\<rparr>)"
  by (simp add: msgEnQueue_def addMsgDroppedTotal_def Let_def)

text \<open>
  C2, evaluated: a backlog with bound 2 receives a message with \<open>QOS_1\<close> and identifier
  2, then one with \<open>QOS_0\<close>, and is full. Enqueueing a third message, with \<open>QOS_1\<close> and
  identifier 3, reports the \<open>QOS_0\<close> entry to the hook and counts one drop, and the entry
  is still in the queue, between the two others.
\<close>

theorem msgEnQueue_case1_keeps_entry:
  "msgEnQueue (example_publish QOS_1 3)
     (msgEnQueue (example_publish QOS_0 0)
       (msgEnQueue (example_publish QOS_1 2) (example_session 0 0 2)))
   = (example_session 0 0 2)
       \<lparr>msgQueue := [example_publish QOS_1 2, example_publish QOS_0 0, example_publish QOS_1 3],
        msgQueueLen := 2, msgDroppedTotal := 1,
        effects := [OnMsgDropped (example_publish QOS_0 0)]\<rparr>"
  by (simp add: ops_defs example_defs)

text \<open>
  C3, evaluated: with bound 2, the queue of the session above holds 3 entries after the
  third call of \<open>msgEnQueue\<close> has returned, and 4 after a fourth.
\<close>

theorem msgEnQueue_exceeds_bound:
  "MaxMsgQueue (config (example_session 0 0 2)) = 2 \<and>
   length (msgQueue
     (msgEnQueue (example_publish QOS_1 3)
       (msgEnQueue (example_publish QOS_0 0)
         (msgEnQueue (example_publish QOS_1 2) (example_session 0 0 2))))) = 3 \<and>
   length (msgQueue
     (msgEnQueue (example_publish QOS_1 4)
       (msgEnQueue (example_publish QOS_1 3)
         (msgEnQueue (example_publish QOS_0 0)
           (msgEnQueue (example_publish QOS_1 2) (example_session 0 0 2)))))) = 4"
  by (simp add: ops_defs example_defs)

text \<open>Cases 2 and 3, and an enqueue into a queue with room, keep the queue within its bound.\<close>

lemma msgEnQueue_bound_without_case1:
  assumes "MaxMsgQueue (config c) \<noteq> 0" and "length (msgQueue c) \<le> MaxMsgQueue (config c)"
    and "find (\<lambda>pub. Qos pub = QOS_0) (msgQueue c) = None"
  shows "length (msgQueue (msgEnQueue publish c)) \<le> MaxMsgQueue (config c)"
  using assms
  by (auto simp: msgEnQueue_def addMsgDroppedTotal_def callOnMsgDropped_def Let_def
      split: list.splits)

section \<open>The in-flight queue\<close>

subsection \<open>The scan of an acknowledgment\<close>

lemma unsetInflight_loop_Puback_found:
  "\<exists>el\<in>set xs. Qos (packet el) = QOS_1 \<and> pid el = p \<Longrightarrow>
   \<exists>q e. unsetInflight_loop (Puback p) (freeID, pid0) seen xs = Some (q, e, True, p) \<and>
         Qos (packet e) = QOS_1 \<and> pid e = p"
proof (induction xs arbitrary: freeID pid0 seen)
  case Nil
  then show ?case by simp
next
  case (Cons x xs)
  show ?case
  proof (cases "Qos (packet x) = QOS_1 \<and> pid x = p")
    case True
    then show ?thesis by simp
  next
    case False
    with Cons.prems have "\<exists>el\<in>set xs. Qos (packet el) = QOS_1 \<and> pid el = p" by auto
    from Cons.IH [OF this] show ?thesis using False by auto
  qed
qed

lemma unsetInflight_loop_Pubrec_found:
  "\<exists>el\<in>set xs. Qos (packet el) = QOS_2 \<and> pid el = p \<Longrightarrow>
   \<exists>q e. unsetInflight_loop (Pubrec p) (freeID, pid0) seen xs = Some (q, e, freeID, p) \<and>
         Qos (packet e) = QOS_2 \<and> pid e = p"
proof (induction xs arbitrary: pid0 seen)
  case Nil
  then show ?case by simp
next
  case (Cons x xs)
  show ?case
  proof (cases "Qos (packet x) = QOS_2 \<and> pid x = p")
    case True
    then show ?thesis by simp
  next
    case False
    with Cons.prems have "\<exists>el\<in>set xs. Qos (packet el) = QOS_2 \<and> pid el = p" by auto
    from Cons.IH [OF this] show ?thesis using False by auto
  qed
qed

text \<open>An acknowledgment of kind \<open>Pubrec\<close> never sets \<open>freeID\<close>.\<close>

lemma unsetInflight_loop_Pubrec_freeID:
  "unsetInflight_loop (Pubrec p) (freeID, pid0) seen xs = Some (q, e, f, y) \<Longrightarrow> f = freeID"
proof (induction xs arbitrary: pid0 seen)
  case Nil
  then show ?case by simp
next
  case (Cons x xs)
  show ?case
  proof (cases "Qos (packet x) = QOS_2")
    case False
    with Cons.prems
    have "unsetInflight_loop (Pubrec p) (freeID, pid0) (seen @ [x]) xs = Some (q, e, f, y)"
      by simp
    then show ?thesis by (rule Cons.IH)
  next
    case True
    note qos = this
    show ?thesis
    proof (cases "pid x = p")
      case True
      with qos Cons.prems show ?thesis by simp
    next
      case False
      with qos Cons.prems
      have "unsetInflight_loop (Pubrec p) (freeID, p) (seen @ [x]) xs = Some (q, e, f, y)"
        by simp
      then show ?thesis by (rule Cons.IH)
    qed
  qed
qed

lemma unsetInflight_loop_Puback_none:
  "\<forall>el\<in>set xs. \<not> (Qos (packet el) = QOS_1 \<and> pid el = p) \<Longrightarrow>
   unsetInflight_loop (Puback p) (freeID, pid0) seen xs = None"
  by (induction xs arbitrary: freeID pid0 seen) auto

lemma unsetInflight_loop_Pubrec_none:
  "\<forall>el\<in>set xs. \<not> (Qos (packet el) = QOS_2 \<and> pid el = p) \<Longrightarrow>
   unsetInflight_loop (Pubrec p) (freeID, pid0) seen xs = None"
  by (induction xs arbitrary: freeID pid0 seen) auto

text \<open>The record found is one of the queue, and the queue returned is one shorter.\<close>

lemma unsetInflight_loop_length:
  "unsetInflight_loop pk locals seen xs = Some (q, e, f, y) \<Longrightarrow>
   length q + 1 = length seen + length xs \<and> e \<in> set xs"
proof (induction xs arbitrary: locals seen)
  case Nil
  then show ?case by simp
next
  case (Cons x xs)
  obtain locals' m where b: "unsetInflight_body pk locals x = (locals', m)"
    by (cases "unsetInflight_body pk locals x")
  show ?case
  proof (cases m)
    case True
    with b Cons.prems show ?thesis by auto
  next
    case False
    with b Cons.prems have "unsetInflight_loop pk locals' (seen @ [x]) xs = Some (q, e, f, y)"
      by simp
    from Cons.IH [OF this] show ?thesis by simp
  qed
qed

subsection \<open>The session after a matching acknowledgment\<close>

text \<open>
  When the scan finds a record: the record leaves the queue and \<open>inflightLen\<close> goes down
  by one; the identifier is unlocked if \<open>freeID\<close> is set; the hook is called with the
  message of the record. With a backlog that is not empty, its first entry leaves the
  backlog, \<open>msgQueueLen\<close> goes down by one, a record for it goes to the tail of the
  in-flight queue and it is handed to \<open>deliverMsg\<close>; \<open>inflightLen\<close> does not go up
  again.
\<close>

lemma unsetInflight_found:
  assumes "unsetInflight_loop pk (False, 0) [] (inflight c) = Some (q, e, freeID, p)"
  shows "unsetInflight now pk c =
     (case msgQueue c of
        [] \<Rightarrow> c\<lparr>inflight := q, inflightLen := inflightLen c - 1,
               lockedPid := (if freeID then (lockedPid c)(p \<mapsto> False) else lockedPid c),
               effects := effects c @ (if hookOnAcked c then [OnAcked (packet e)] else [])\<rparr>
      | publish # rest \<Rightarrow>
          c\<lparr>inflight := q @ [\<lparr>at = now, pid = PacketID publish, packet = publish\<rparr>],
            inflightLen := inflightLen c - 1,
            msgQueue := rest, msgQueueLen := msgQueueLen c - 1,
            lockedPid := (if freeID then (lockedPid c)(p \<mapsto> False) else lockedPid c),
            effects := effects c @ (if hookOnAcked c then [OnAcked (packet e)] else [])
                       @ [DeliverMsg publish]\<rparr>)"
  using assms by (simp add: ops_defs split: list.splits)

text \<open>
  C4, evaluated: a session with window size 1 and an unbounded backlog admits A, B and C
  (\<open>QOS_1\<close>, identifiers 1, 2, 3) in this order; A is in flight, B and C are in the
  backlog, and \<open>inflightLen\<close> is 1. The \<open>Puback\<close> for A removes A, promotes B to the
  in-flight queue and hands B, not C, to \<open>deliverMsg\<close>. The in-flight queue then holds
  one record, and \<open>inflightLen\<close> is 0: the promotion did not increment it.
\<close>

theorem unsetInflight_promotion_inflightLen:
  "inflightLen
     (snd (setInflight 3 (example_publish QOS_1 3)
       (snd (setInflight 2 (example_publish QOS_1 2)
         (snd (setInflight 1 (example_publish QOS_1 1) (example_session 1 0 0))))))) = 1 \<and>
   unsetInflight 4 (Puback 1)
     (snd (setInflight 3 (example_publish QOS_1 3)
       (snd (setInflight 2 (example_publish QOS_1 2)
         (snd (setInflight 1 (example_publish QOS_1 1) (example_session 1 0 0)))))))
   = (example_session 1 0 0)
       \<lparr>inflight := [\<lparr>at = 4, pid = 2, packet = example_publish QOS_1 2\<rparr>],
        inflightLen := 0,
        msgQueue := [example_publish QOS_1 3], msgQueueLen := 1,
        lockedPid := [1 \<mapsto> False],
        effects := [OnAcked (example_publish QOS_1 1), DeliverMsg (example_publish QOS_1 2)]\<rparr>"
  by (simp add: ops_defs example_defs)

subsection \<open>Release of the identifier\<close>

lemma unsetAwaitRel_loop_none:
  "\<forall>el\<in>set xs. rel_pid el \<noteq> p \<Longrightarrow> unsetAwaitRel_loop p seen xs = None"
  by (induction xs arbitrary: seen) auto

lemma unsetAwaitRel_loop_found:
  "\<exists>el\<in>set xs. rel_pid el = p \<Longrightarrow>
   \<exists>q. unsetAwaitRel_loop p seen xs = Some q \<and> Suc (length q) = length seen + length xs"
proof (induction xs arbitrary: seen)
  case Nil
  then show ?case by simp
next
  case (Cons x xs)
  show ?case
  proof (cases "rel_pid x = p")
    case True
    then show ?thesis by simp
  next
    case False
    with Cons.prems have "\<exists>el\<in>set xs. rel_pid el = p" by auto
    from Cons.IH [OF this, of "seen @ [x]"] False show ?thesis by simp
  qed
qed

lemma unsetInflight_Pubrec_lockedPid:
  "lockedPid (unsetInflight now (Pubrec p) c) = lockedPid c"
proof (cases "unsetInflight_loop (Pubrec p) (False, 0) [] (inflight c)")
  case None
  then show ?thesis by (simp add: unsetInflight_def)
next
  case (Some r)
  then obtain q e f y where
    r: "unsetInflight_loop (Pubrec p) (False, 0) [] (inflight c) = Some (q, e, f, y)"
    by (cases r) auto
  from unsetInflight_loop_Pubrec_freeID [OF r] have "f = False" .
  with unsetInflight_found [OF r, of now] show ?thesis
    by (simp split: list.splits)
qed

text \<open>
  C5: a \<open>Puback\<close> for a \<open>QOS_1\<close> record of the in-flight queue retires a record and
  sets the flag of its identifier to not in use. A \<open>Pubrec\<close> for a \<open>QOS_2\<close> record
  retires a record and leaves the identifier table as it was. \<open>unsetAwaitRel\<close> for an
  identifier of the await-release queue retires the entry and sets the flag of the
  identifier to not in use. No \<open>Pubrec\<close> at all changes the identifier table.
\<close>

theorem release_on_Puback_and_unsetAwaitRel_only:
  "(e1 \<in> set (inflight c) \<and> Qos (packet e1) = QOS_1 \<longrightarrow>
      lockedPid (unsetInflight now (Puback (pid e1)) c) = (lockedPid c)(pid e1 \<mapsto> False) \<and>
      inflightLen (unsetInflight now (Puback (pid e1)) c) = inflightLen c - 1) \<and>
   (e2 \<in> set (inflight c) \<and> Qos (packet e2) = QOS_2 \<longrightarrow>
      lockedPid (unsetInflight now (Pubrec (pid e2)) c) = lockedPid c \<and>
      inflightLen (unsetInflight now (Pubrec (pid e2)) c) = inflightLen c - 1) \<and>
   (r \<in> set (awaitRel c) \<longrightarrow>
      lockedPid (unsetAwaitRel (rel_pid r) c) = (lockedPid c)(rel_pid r \<mapsto> False) \<and>
      awaitRelLen (unsetAwaitRel (rel_pid r) c) = awaitRelLen c - 1) \<and>
   lockedPid (unsetInflight now (Pubrec p) c) = lockedPid c"
proof (intro conjI impI)
  assume a: "e1 \<in> set (inflight c) \<and> Qos (packet e1) = QOS_1"
  then have "\<exists>x\<in>set (inflight c). Qos (packet x) = QOS_1 \<and> pid x = pid e1" by blast
  from unsetInflight_loop_Puback_found [OF this, of False 0 "[]"]
  obtain q e where
    "unsetInflight_loop (Puback (pid e1)) (False, 0) [] (inflight c) = Some (q, e, True, pid e1)"
    by blast
  note f = unsetInflight_found [OF this, of now]
  show "lockedPid (unsetInflight now (Puback (pid e1)) c) = (lockedPid c)(pid e1 \<mapsto> False)"
    by (simp add: f split: list.splits)
  show "inflightLen (unsetInflight now (Puback (pid e1)) c) = inflightLen c - 1"
    by (simp add: f split: list.splits)
next
  assume a: "e2 \<in> set (inflight c) \<and> Qos (packet e2) = QOS_2"
  then have "\<exists>x\<in>set (inflight c). Qos (packet x) = QOS_2 \<and> pid x = pid e2" by blast
  from unsetInflight_loop_Pubrec_found [OF this, of False 0 "[]"]
  obtain q e where
    "unsetInflight_loop (Pubrec (pid e2)) (False, 0) [] (inflight c) = Some (q, e, False, pid e2)"
    by blast
  note f = unsetInflight_found [OF this, of now]
  show "lockedPid (unsetInflight now (Pubrec (pid e2)) c) = lockedPid c"
    by (simp add: f split: list.splits)
  show "inflightLen (unsetInflight now (Pubrec (pid e2)) c) = inflightLen c - 1"
    by (simp add: f split: list.splits)
next
  assume "r \<in> set (awaitRel c)"
  then have "\<exists>x\<in>set (awaitRel c). rel_pid x = rel_pid r" by blast
  from unsetAwaitRel_loop_found [OF this, of "[]"]
  obtain q where q: "unsetAwaitRel_loop (rel_pid r) [] (awaitRel c) = Some q" by blast
  show "lockedPid (unsetAwaitRel (rel_pid r) c) = (lockedPid c)(rel_pid r \<mapsto> False)"
    by (simp add: unsetAwaitRel_def q freePacketID_def)
  show "awaitRelLen (unsetAwaitRel (rel_pid r) c) = awaitRelLen c - 1"
    by (simp add: unsetAwaitRel_def q freePacketID_def)
next
  show "lockedPid (unsetInflight now (Pubrec p) c) = lockedPid c"
    by (rule unsetInflight_Pubrec_lockedPid)
qed

theorem release_on_Puback_and_unsetAwaitRel_only_witness:
  "\<lparr>at = 1, pid = 1, packet = example_publish QOS_1 1\<rparr> \<in> set (inflight example_busy_session) \<and>
   Qos (packet \<lparr>at = 1, pid = 1, packet = example_publish QOS_1 1\<rparr>) = QOS_1 \<and>
   is_locked (lockedPid example_busy_session) 1 \<and>
   \<not> is_locked (lockedPid (unsetInflight 4 (Puback 1) example_busy_session)) 1 \<and>
   \<lparr>at = 2, pid = 2, packet = example_publish QOS_2 2\<rparr> \<in> set (inflight example_busy_session) \<and>
   Qos (packet \<lparr>at = 2, pid = 2, packet = example_publish QOS_2 2\<rparr>) = QOS_2 \<and>
   is_locked (lockedPid example_busy_session) 2 \<and>
   is_locked (lockedPid (unsetInflight 4 (Pubrec 2) example_busy_session)) 2 \<and>
   inflightLen (unsetInflight 4 (Pubrec 2) example_busy_session) = 1 \<and>
   \<lparr>rel_at = 3, rel_pid = 3\<rparr> \<in> set (awaitRel example_busy_session) \<and>
   is_locked (lockedPid example_busy_session) 3 \<and>
   \<not> is_locked (lockedPid (unsetAwaitRel 3 example_busy_session)) 3"
proof -
  let ?e1 = "\<lparr>at = 1, pid = 1, packet = example_publish QOS_1 1\<rparr>"
  let ?e2 = "\<lparr>at = 2, pid = 2, packet = example_publish QOS_2 2\<rparr>"
  let ?r = "\<lparr>rel_at = 3, rel_pid = 3\<rparr>"
  have q: "inflight example_busy_session = [?e1, ?e2]"
    "awaitRel example_busy_session = [?r]"
    "inflightLen example_busy_session = 2"
    "lockedPid example_busy_session = [1 \<mapsto> True, 2 \<mapsto> True, 3 \<mapsto> True]"
    by (simp_all add: example_busy_session_def ops_defs example_defs)
  have h: "?e1 \<in> set (inflight example_busy_session) \<and> Qos (packet ?e1) = QOS_1"
    "?e2 \<in> set (inflight example_busy_session) \<and> Qos (packet ?e2) = QOS_2"
    "?r \<in> set (awaitRel example_busy_session)"
    by (simp_all add: q example_publish_def)
  from release_on_Puback_and_unsetAwaitRel_only [of ?e1 example_busy_session 4 ?e2 ?r 2] h
  have "lockedPid (unsetInflight 4 (Puback 1) example_busy_session)
          = (lockedPid example_busy_session)(1 \<mapsto> False)"
    "lockedPid (unsetInflight 4 (Pubrec 2) example_busy_session) = lockedPid example_busy_session"
    "inflightLen (unsetInflight 4 (Pubrec 2) example_busy_session) = inflightLen example_busy_session - 1"
    "lockedPid (unsetAwaitRel 3 example_busy_session) = (lockedPid example_busy_session)(3 \<mapsto> False)"
    by simp_all
  with h show ?thesis
    by (simp add: q is_locked_def)
qed

subsection \<open>Acknowledgments that match no record\<close>

text \<open>
  A \<open>Puback\<close> whose identifier is held by no \<open>QOS_1\<close> record, a \<open>Pubrec\<close> whose
  identifier is held by no \<open>QOS_2\<close> record and an \<open>unsetAwaitRel\<close> whose identifier
  is not in the await-release queue leave the whole session as it was.
\<close>

lemma unsetInflight_Puback_noop:
  "\<forall>el\<in>set (inflight c). \<not> (Qos (packet el) = QOS_1 \<and> pid el = p) \<Longrightarrow>
   unsetInflight now (Puback p) c = c"
  by (simp add: unsetInflight_def unsetInflight_loop_Puback_none)

lemma unsetInflight_Pubrec_noop:
  "\<forall>el\<in>set (inflight c). \<not> (Qos (packet el) = QOS_2 \<and> pid el = p) \<Longrightarrow>
   unsetInflight now (Pubrec p) c = c"
  by (simp add: unsetInflight_def unsetInflight_loop_Pubrec_none)

lemma unsetAwaitRel_noop:
  "\<forall>el\<in>set (awaitRel c). rel_pid el \<noteq> p \<Longrightarrow> unsetAwaitRel p c = c"
  by (simp add: unsetAwaitRel_def unsetAwaitRel_loop_none)

text \<open>
  C9, evaluated: the type switch of \<open>unsetInflight\<close> has no case for a \<open>Pubcomp\<close>, so
  the local \<open>pid\<close> keeps its initial value 0 and the identifier of the packet is never
  read. With one record of identifier 0 in flight, a \<open>Pubcomp\<close> with identifier 5, which
  no record holds, removes that record, decrements \<open>inflightLen\<close> and calls the hook.
\<close>

theorem unsetInflight_Pubcomp_removes_record_0:
  "inflight (snd (setInflight 1 (example_publish QOS_1 0) (example_session 0 0 0))) =
     [\<lparr>at = 1, pid = 0, packet = example_publish QOS_1 0\<rparr>] \<and>
   inflightLen (snd (setInflight 1 (example_publish QOS_1 0) (example_session 0 0 0))) = 1 \<and>
   unsetInflight 2 (Pubcomp 5) (snd (setInflight 1 (example_publish QOS_1 0) (example_session 0 0 0)))
     = (example_session 0 0 0)\<lparr>effects := [OnAcked (example_publish QOS_1 0)]\<rparr>"
  by (simp add: ops_defs example_defs)

subsection \<open>Admission\<close>

lemma msgEnQueue_frame:
  "inflight (msgEnQueue publish c) = inflight c"
  "inflightLen (msgEnQueue publish c) = inflightLen c"
  "MaxInflight (config (msgEnQueue publish c)) = MaxInflight (config c)"
  "MaxMsgQueue (config (msgEnQueue publish c)) = MaxMsgQueue (config c)"
  by (simp_all add: msgEnQueue_def addMsgDroppedTotal_def callOnMsgDropped_def Let_def
      split: option.splits list.splits)

lemma fold_msgEnQueue_frame:
  "inflight (fold msgEnQueue ps c) = inflight c"
  "inflightLen (fold msgEnQueue ps c) = inflightLen c"
  "MaxInflight (config (fold msgEnQueue ps c)) = MaxInflight (config c)"
  "MaxMsgQueue (config (fold msgEnQueue ps c)) = MaxMsgQueue (config c)"
  by (induction ps arbitrary: c) (simp_all add: msgEnQueue_frame)

lemma fold_msgEnQueue_unbounded:
  "MaxMsgQueue (config c) = 0 \<Longrightarrow> msgQueue (fold msgEnQueue ps c) = msgQueue c @ ps"
  by (induction ps arbitrary: c) (simp_all add: msgEnQueue_room)

text \<open>With the window full, every message of the list is refused and goes to \<open>msgEnQueue\<close>.\<close>

lemma setInflight_seq_full:
  "MaxInflight (config c) \<noteq> 0 \<Longrightarrow> length (inflight c) \<ge> MaxInflight (config c) \<Longrightarrow>
   setInflight_seq ms c = (replicate (length ms) False, fold msgEnQueue (map snd ms) c)"
proof (induction ms arbitrary: c)
  case Nil
  then show ?case by simp
next
  case (Cons m ms)
  obtain now publish where m: "m = (now, publish)" by (cases m)
  have "MaxInflight (config (msgEnQueue publish c)) \<noteq> 0"
    "length (inflight (msgEnQueue publish c)) \<ge> MaxInflight (config (msgEnQueue publish c))"
    using Cons.prems by (simp_all add: msgEnQueue_frame)
  from Cons.IH [OF this] Cons.prems show ?case
    by (simp add: m setInflight_def)
qed

text \<open>
  With room for \<open>room\<close> more records, the first \<open>room\<close> messages are admitted and the
  rest are refused and go to \<open>msgEnQueue\<close>, in the order of the calls.
\<close>

lemma setInflight_seq_room:
  "MaxInflight (config c) \<noteq> 0 \<Longrightarrow> length (inflight c) + room = MaxInflight (config c) \<Longrightarrow>
   setInflight_seq ms c =
     (replicate (min room (length ms)) True @ replicate (length ms - room) False,
      fold msgEnQueue (map snd (drop room ms))
        (c\<lparr>inflightLen := inflightLen c + int (min room (length ms)),
           inflight := inflight c @ map admitted_elem (take room ms)\<rparr>))"
proof (induction ms arbitrary: c room)
  case Nil
  then show ?case by simp
next
  case (Cons m ms)
  obtain now publish where m: "m = (now, publish)" by (cases m)
  show ?case
  proof (cases room)
    case 0
    with Cons.prems have "length (inflight c) \<ge> MaxInflight (config c)" by simp
    from setInflight_seq_full [OF Cons.prems(1) this, of "m # ms"] 0 show ?thesis
      by simp
  next
    case (Suc r)
    let ?c1 = "c\<lparr>inflightLen := inflightLen c + 1, inflight := inflight c @ [admitted_elem m]\<rparr>"
    have s: "setInflight now publish c = (True, ?c1)"
      using Cons.prems Suc by (simp add: setInflight_def m admitted_elem_def)
    have "MaxInflight (config ?c1) \<noteq> 0" "length (inflight ?c1) + r = MaxInflight (config ?c1)"
      using Cons.prems Suc by simp_all
    from Cons.IH [OF this] show ?thesis
      by (simp add: m s Suc add.assoc)
  qed
qed

text \<open>
  C8, as the code has it: take a non-zero window size and an in-flight queue with room
  for \<open>room\<close> more records (0 when it is full). After any list of calls of
  \<open>setInflight\<close>, the in-flight queue is within the window size; the first \<open>room\<close>
  messages are admitted (\<open>true\<close> is returned) and appended to the in-flight queue; for
  every later message \<open>false\<close> is returned and the message is handed to \<open>msgEnQueue\<close>,
  in the order of the calls, which appends it or applies its policy for a full backlog.
  With an unbounded backlog, the backlog grows by exactly the refused messages, in the
  order of the calls.
\<close>

theorem setInflight_seq_window:
  assumes "MaxInflight (config c) \<noteq> 0" and "length (inflight c) + room = MaxInflight (config c)"
  shows "length (inflight (snd (setInflight_seq ms c))) \<le> MaxInflight (config c) \<and>
         fst (setInflight_seq ms c) =
           replicate (min room (length ms)) True @ replicate (length ms - room) False \<and>
         inflight (snd (setInflight_seq ms c)) = inflight c @ map admitted_elem (take room ms) \<and>
         snd (setInflight_seq ms c) =
           fold msgEnQueue (map snd (drop room ms))
             (c\<lparr>inflightLen := inflightLen c + int (min room (length ms)),
                inflight := inflight c @ map admitted_elem (take room ms)\<rparr>) \<and>
         (MaxMsgQueue (config c) = 0 \<longrightarrow>
            msgQueue (snd (setInflight_seq ms c)) = msgQueue c @ map snd (drop room ms))"
proof -
  note eq = setInflight_seq_room [OF assms, of ms]
  have "length (take room ms) \<le> room" by simp
  with assms(2) have "length (inflight c @ map admitted_elem (take room ms)) \<le> MaxInflight (config c)"
    by simp
  then show ?thesis
    by (simp add: eq fold_msgEnQueue_frame fold_msgEnQueue_unbounded)
qed

theorem setInflight_seq_window_witness:
  "MaxInflight (config (example_session 1 0 0)) \<noteq> 0 \<and>
   length (inflight (example_session 1 0 0)) + 1 = MaxInflight (config (example_session 1 0 0)) \<and>
   MaxMsgQueue (config (example_session 1 0 0)) = 0 \<and>
   fst (setInflight_seq
         [(1, example_publish QOS_1 1), (2, example_publish QOS_1 2), (3, example_publish QOS_1 3)]
         (example_session 1 0 0)) = [True, False, False] \<and>
   inflight (snd (setInflight_seq
         [(1, example_publish QOS_1 1), (2, example_publish QOS_1 2), (3, example_publish QOS_1 3)]
         (example_session 1 0 0))) = [\<lparr>at = 1, pid = 1, packet = example_publish QOS_1 1\<rparr>] \<and>
   msgQueue (snd (setInflight_seq
         [(1, example_publish QOS_1 1), (2, example_publish QOS_1 2), (3, example_publish QOS_1 3)]
         (example_session 1 0 0))) = [example_publish QOS_1 2, example_publish QOS_1 3]"
proof -
  have h: "MaxInflight (config (example_session 1 0 0)) \<noteq> 0"
    "length (inflight (example_session 1 0 0)) + 1 = MaxInflight (config (example_session 1 0 0))"
    "MaxMsgQueue (config (example_session 1 0 0)) = 0"
    by (simp_all add: example_session_def)
  from setInflight_seq_window [OF h(1) h(2),
      of "[(1, example_publish QOS_1 1), (2, example_publish QOS_1 2), (3, example_publish QOS_1 3)]"]
    h
  show ?thesis
    by (simp add: admitted_elem_def example_defs ops_defs del: setInflight_seq.simps)
qed

text \<open>
  The claim as written has every refused message enqueued into the backlog. With window
  size 1 and backlog bound 1, the second message fills the backlog; the third, which has
  \<open>QOS_0\<close>, is refused and then discarded by case 2 of \<open>msgEnQueue\<close>: it is not in the
  backlog afterwards.
\<close>

theorem setInflight_refused_not_enqueued_counterexample:
  "fst (setInflight 3 (example_publish QOS_0 0)
      (snd (setInflight 2 (example_publish QOS_1 2)
        (snd (setInflight 1 (example_publish QOS_1 1) (example_session 1 0 1)))))) = False \<and>
   msgQueue (snd (setInflight 3 (example_publish QOS_0 0)
      (snd (setInflight 2 (example_publish QOS_1 2)
        (snd (setInflight 1 (example_publish QOS_1 1) (example_session 1 0 1))))))) =
     [example_publish QOS_1 2] \<and>
   example_publish QOS_0 0 \<notin> set (msgQueue (snd (setInflight 3 (example_publish QOS_0 0)
      (snd (setInflight 2 (example_publish QOS_1 2)
        (snd (setInflight 1 (example_publish QOS_1 1) (example_session 1 0 1)))))))) "
  by (simp add: ops_defs example_defs)

section \<open>The await-release queue and the identifier table\<close>

text \<open>
  What \<open>setAwaitRel\<close> does to the queue and to \<open>awaitRelLen\<close>: on a full queue the head
  goes and the new entry is appended, so the queue keeps its length and stays within the
  bound, while \<open>awaitRelLen\<close> is incremented all the same.
\<close>

lemma setAwaitRel_full:
  "MaxAwaitRel (config c) \<noteq> 0 \<Longrightarrow> MaxAwaitRel (config c) \<le> length (awaitRel c) \<Longrightarrow>
   setAwaitRel now p c =
     c\<lparr>awaitRel := tl (awaitRel c) @ [\<lparr>rel_at = now, rel_pid = p\<rparr>],
       awaitRelLen := awaitRelLen c + 1\<rparr>"
  by (simp add: setAwaitRel_def Let_def)

lemma setAwaitRel_room:
  "\<not> (MaxAwaitRel (config c) \<le> length (awaitRel c) \<and> MaxAwaitRel (config c) \<noteq> 0) \<Longrightarrow>
   setAwaitRel now p c =
     c\<lparr>awaitRel := awaitRel c @ [\<lparr>rel_at = now, rel_pid = p\<rparr>],
       awaitRelLen := awaitRelLen c + 1\<rparr>"
  by (auto simp: setAwaitRel_def Let_def)

lemma setAwaitRel_queue_within_bound:
  assumes "MaxAwaitRel (config c) \<noteq> 0" and "length (awaitRel c) \<le> MaxAwaitRel (config c)"
  shows "length (awaitRel (setAwaitRel now p c)) \<le> MaxAwaitRel (config c)"
  using assms by (auto simp: setAwaitRel_def Let_def)

text \<open>
  C7, evaluated: with bound 1, a first \<open>setAwaitRel\<close> fills the queue and a second one
  evicts the head and appends the new entry. The queue holds one entry, and the tracked
  length \<open>awaitRelLen\<close> is 2: it is above the length of the queue and above the bound.
\<close>

theorem setAwaitRel_eviction_awaitRelLen:
  "MaxAwaitRel (config (example_session 0 1 0)) = 1 \<and>
   setAwaitRel 2 8 (setAwaitRel 1 7 (example_session 0 1 0))
     = (example_session 0 1 0)\<lparr>awaitRel := [\<lparr>rel_at = 2, rel_pid = 8\<rparr>], awaitRelLen := 2\<rparr>"
  by (simp add: ops_defs example_defs)

text \<open>
  C10: \<open>setAwaitRel\<close> never changes the identifier table, neither the flags nor the
  cursor. When it evicts the head of a full queue, the new entry goes to the tail of what
  is left, and the identifier of the evicted entry, if it was marked in use, is still
  marked in use afterwards: it is not released.
\<close>

theorem setAwaitRel_keeps_identifier_table:
  "lockedPid (setAwaitRel now p c) = lockedPid c \<and>
   freePid (setAwaitRel now p c) = freePid c \<and>
   (MaxAwaitRel (config c) \<noteq> 0 \<and> length (awaitRel c) \<ge> MaxAwaitRel (config c) \<and> awaitRel c = e # rest \<and>
    is_locked (lockedPid c) (rel_pid e) \<longrightarrow>
      awaitRel (setAwaitRel now p c) = rest @ [\<lparr>rel_at = now, rel_pid = p\<rparr>] \<and>
      is_locked (lockedPid (setAwaitRel now p c)) (rel_pid e))"
  by (auto simp: setAwaitRel_def Let_def)

theorem setAwaitRel_keeps_identifier_table_witness:
  "MaxAwaitRel (config (setPacketID 7 (setAwaitRel 1 7 (example_session 0 1 0)))) \<noteq> 0 \<and>
   length (awaitRel (setPacketID 7 (setAwaitRel 1 7 (example_session 0 1 0))))
     \<ge> MaxAwaitRel (config (setPacketID 7 (setAwaitRel 1 7 (example_session 0 1 0)))) \<and>
   awaitRel (setPacketID 7 (setAwaitRel 1 7 (example_session 0 1 0))) = \<lparr>rel_at = 1, rel_pid = 7\<rparr> # [] \<and>
   is_locked (lockedPid (setPacketID 7 (setAwaitRel 1 7 (example_session 0 1 0)))) 7 \<and>
   awaitRel (setAwaitRel 2 8 (setPacketID 7 (setAwaitRel 1 7 (example_session 0 1 0))))
     = [\<lparr>rel_at = 2, rel_pid = 8\<rparr>] \<and>
   is_locked (lockedPid (setAwaitRel 2 8 (setPacketID 7 (setAwaitRel 1 7 (example_session 0 1 0))))) 7"
  using setAwaitRel_keeps_identifier_table
    [of 2 8 "setPacketID 7 (setAwaitRel 1 7 (example_session 0 1 0))" "\<lparr>rel_at = 1, rel_pid = 7\<rparr>" "[]"]
  by (simp add: setAwaitRel_def setPacketID_def example_session_def is_locked_def)

section \<open>The dropped-message counter\<close>

lemma msgEnQueue_dropped:
  "msgDroppedTotal (msgEnQueue publish c) =
     (if MaxMsgQueue (config c) \<le> length (msgQueue c) \<and> MaxMsgQueue (config c) \<noteq> 0
      then msgDroppedTotal c + 1 else msgDroppedTotal c)"
  by (simp add: msgEnQueue_def addMsgDroppedTotal_def callOnMsgDropped_def Let_def
      split: option.splits list.splits)

lemma setAwaitRel_dropped: "msgDroppedTotal (setAwaitRel now p c) = msgDroppedTotal c"
  by (simp add: setAwaitRel_def Let_def)

lemma unsetAwaitRel_dropped: "msgDroppedTotal (unsetAwaitRel p c) = msgDroppedTotal c"
  by (simp add: unsetAwaitRel_def freePacketID_def split: option.splits)

lemma msgDequeue_dropped: "msgDroppedTotal (snd (msgDequeue c)) = msgDroppedTotal c"
  by (simp add: msgDequeue_def split: list.splits)

lemma setInflight_dropped:
  "msgDroppedTotal c \<le> msgDroppedTotal (snd (setInflight now publish c))"
  by (simp add: setInflight_def Let_def msgEnQueue_dropped)

lemma unsetInflight_dropped: "msgDroppedTotal (unsetInflight now pk c) = msgDroppedTotal c"
proof (cases "unsetInflight_loop pk (False, 0) [] (inflight c)")
  case None
  then show ?thesis by (simp add: unsetInflight_def)
next
  case (Some r)
  then obtain q e f y where
    "unsetInflight_loop pk (False, 0) [] (inflight c) = Some (q, e, f, y)"
    by (cases r) auto
  from unsetInflight_found [OF this, of now] show ?thesis
    by (simp split: list.splits)
qed

lemma getPacketID_dropped:
  "getPacketID c = Some (p, c') \<Longrightarrow> msgDroppedTotal c' = msgDroppedTotal c"
  by (auto simp: getPacketID_def split: option.splits)

lemma do_call_dropped: "do_call x c = Some c' \<Longrightarrow> msgDroppedTotal c \<le> msgDroppedTotal c'"
proof (cases x)
  case (MsgEnQueue publish)
  assume "do_call x c = Some c'"
  with MsgEnQueue show ?thesis by (auto simp: msgEnQueue_dropped)
next
  case (SetInflight now publish)
  assume "do_call x c = Some c'"
  with SetInflight show ?thesis using setInflight_dropped [of c now publish] by auto
next
  case GetPacketID
  assume "do_call x c = Some c'"
  with GetPacketID show ?thesis by (auto dest: getPacketID_dropped)
qed (auto simp: setAwaitRel_dropped unsetAwaitRel_dropped msgDequeue_dropped
      unsetInflight_dropped freePacketID_def setPacketID_def)

lemma run_dropped: "run xs c = Some c' \<Longrightarrow> msgDroppedTotal c \<le> msgDroppedTotal c'"
proof (induction xs arbitrary: c)
  case Nil
  then show ?case by simp
next
  case (Cons x xs)
  from Cons.prems obtain c1 where c1: "do_call x c = Some c1" "run xs c1 = Some c'"
    by (auto split: option.splits)
  from do_call_dropped [OF c1(1)] Cons.IH [OF c1(2)] show ?case by simp
qed

text \<open>
  C6, as the code has it: \<open>msgEnQueue\<close> on a backlog at its non-zero bound, where it
  decides an eviction, increments the dropped-message counter by exactly 1, and any other
  \<open>msgEnQueue\<close> leaves the counter as it was. \<open>setAwaitRel\<close> never changes the counter,
  also when it evicts the head of the await-release queue. Over any run of operations of
  the session that has a final session, the counter does not decrease.
\<close>

theorem msgDroppedTotal_accounting:
  "msgDroppedTotal (msgEnQueue publish c) =
     (if MaxMsgQueue (config c) \<le> length (msgQueue c) \<and> MaxMsgQueue (config c) \<noteq> 0
      then msgDroppedTotal c + 1 else msgDroppedTotal c) \<and>
   msgDroppedTotal (setAwaitRel now p c) = msgDroppedTotal c \<and>
   (run xs c = Some c' \<longrightarrow> msgDroppedTotal c \<le> msgDroppedTotal c')"
  by (simp add: msgEnQueue_dropped setAwaitRel_dropped run_dropped)

theorem msgDroppedTotal_accounting_witness:
  "run [MsgEnQueue (example_publish QOS_1 3), SetAwaitRel 1 7, SetAwaitRel 2 8, GetPacketID]
       (msgEnQueue (example_publish QOS_1 2) (example_session 0 1 1))
     = Some ((example_session 0 1 1)
         \<lparr>awaitRel := [\<lparr>rel_at = 2, rel_pid = 8\<rparr>], awaitRelLen := 2,
          msgQueue := [example_publish QOS_1 3], msgQueueLen := 1, msgDroppedTotal := 1,
          freePid := 2, effects := [OnMsgDropped (example_publish QOS_1 2)]\<rparr>) \<and>
   msgDroppedTotal (msgEnQueue (example_publish QOS_1 2) (example_session 0 1 1)) = 0 \<and>
   msgDroppedTotal (msgEnQueue (example_publish QOS_1 3)
     (msgEnQueue (example_publish QOS_1 2) (example_session 0 1 1))) = 1"
proof -
  let ?c = "msgEnQueue (example_publish QOS_1 2) (example_session 0 1 1)"
  let ?c' = "(example_session 0 1 1)
         \<lparr>awaitRel := [\<lparr>rel_at = 2, rel_pid = 8\<rparr>], awaitRelLen := 2,
          msgQueue := [example_publish QOS_1 3], msgQueueLen := 1, msgDroppedTotal := 1,
          freePid := 2, effects := [OnMsgDropped (example_publish QOS_1 2)]\<rparr>"
  have r: "run [MsgEnQueue (example_publish QOS_1 3), SetAwaitRel 1 7, SetAwaitRel 2 8, GetPacketID] ?c
             = Some ?c'"
    by (simp add: ops_defs pid_defs example_defs)
  have f: "MaxMsgQueue (config ?c) \<le> length (msgQueue ?c) \<and> MaxMsgQueue (config ?c) \<noteq> 0"
    "msgDroppedTotal ?c = 0" "msgDroppedTotal ?c' = 1"
    by (simp_all add: ops_defs example_defs)
  from msgDroppedTotal_accounting
      [of "example_publish QOS_1 3" ?c 2 8
          "[MsgEnQueue (example_publish QOS_1 3), SetAwaitRel 1 7, SetAwaitRel 2 8, GetPacketID]" ?c']
    r f
  show ?thesis by simp
qed

text \<open>
  The claim as written has every eviction increment the counter. With bound 1, the second
  \<open>setAwaitRel\<close> evicts the entry with identifier 7, and the counter is 0 before and
  after.
\<close>

theorem setAwaitRel_eviction_not_counted_counterexample:
  "awaitRel (setAwaitRel 1 7 (example_session 0 1 0)) = [\<lparr>rel_at = 1, rel_pid = 7\<rparr>] \<and>
   awaitRel (setAwaitRel 2 8 (setAwaitRel 1 7 (example_session 0 1 0)))
     = [\<lparr>rel_at = 2, rel_pid = 8\<rparr>] \<and>
   msgDroppedTotal (setAwaitRel 1 7 (example_session 0 1 0)) = 0 \<and>
   msgDroppedTotal (setAwaitRel 2 8 (setAwaitRel 1 7 (example_session 0 1 0))) = 0"
  by (simp add: ops_defs example_defs)

end
